theory Spec2Isabelle
  imports Complex_Main "HOL-Library.Sublist" "HOL-Library.Option_ord"
begin

section \<open>Python values used by the summarizer\<close>

text \<open>
  The extractive pipeline of \<^verbatim>\<open>nltk_summarizer.py\<close> (class \<^verbatim>\<open>PDFSummarizer\<close>).
  A Python \<^verbatim>\<open>str\<close> is a \<^typ>\<open>string\<close>, one \<^typ>\<open>char\<close> per character; a Python
  \<^verbatim>\<open>int\<close> is an \<^typ>\<open>int\<close>; an exception is a value of \<open>error\<close> on the left of a sum.
\<close>

datatype error = ValueError | OracleError

subsection \<open>\<^verbatim>\<open>range(start, stop, step)\<close> and slicing\<close>

function range_up :: "int \<Rightarrow> int \<Rightarrow> int \<Rightarrow> int list" where
  "range_up i stop step =
     (if 0 < step \<and> i < stop then i # range_up (i + step) stop step else [])"
  by pat_completeness auto
termination
  by (relation "measure (\<lambda>(i, stop, step). nat (stop - i))") auto

function range_down :: "int \<Rightarrow> int \<Rightarrow> int \<Rightarrow> int list" where
  "range_down i stop step =
     (if step < 0 \<and> stop < i then i # range_down (i + step) stop step else [])"
  by pat_completeness auto
termination
  by (relation "measure (\<lambda>(i, stop, step). nat (i - stop))") auto

declare range_up.simps [simp del] range_down.simps [simp del]

text \<open>\<^verbatim>\<open>range\<close> raises \<^verbatim>\<open>ValueError\<close> when the step is zero; a negative step counts down.\<close>

definition py_range :: "int \<Rightarrow> int \<Rightarrow> int \<Rightarrow> error + int list" where
  "py_range start stop step =
     (if step = 0 then Inl ValueError
      else if 0 < step then Inr (range_up start stop step)
      else Inr (range_down start stop step))"

text \<open>
  A slice bound of \<^verbatim>\<open>xs[i:j]\<close>: a negative bound counts from the end, and every bound is
  clamped into \<open>0..len(xs)\<close>.
\<close>

definition slice_index :: "nat \<Rightarrow> int \<Rightarrow> nat" where
  "slice_index n i = (if i < 0 then nat (max 0 (int n + i)) else min n (nat i))"

definition py_slice :: "'a list \<Rightarrow> int \<Rightarrow> int \<Rightarrow> 'a list" where
  "py_slice xs i j =
     (let lo = slice_index (length xs) i; hi = slice_index (length xs) j
      in take (hi - lo) (drop lo xs))"

section \<open>The chunker\<close>

text \<open>
  \<^verbatim>\<open>split_text(text, chunk_size)\<close>:
  \<^verbatim>\<open>[text[i:i + chunk_size] for i in range(0, len(text), chunk_size)]\<close>.
\<close>

definition split_text :: "'a list \<Rightarrow> int \<Rightarrow> error + 'a list list" where
  "split_text txt chunk_size =
     (case py_range 0 (int (length txt)) chunk_size of
        Inl e \<Rightarrow> Inl e
      | Inr idxs \<Rightarrow> Inr (map (\<lambda>i. py_slice txt i (i + chunk_size)) idxs))"

section \<open>The summarizer object and its collaborators\<close>

text \<open>
  The libraries the class calls are parameters of the model: the two NLTK tokenizers,
  \<^verbatim>\<open>str.lower\<close>, the abstractive \<^verbatim>\<open>pipeline\<close> (called with the chunk, \<^verbatim>\<open>max_length\<close> and
  \<^verbatim>\<open>min_length\<close>), and the two dictionary oracles \<^verbatim>\<open>enchant.Dict.check\<close> and
  \<^verbatim>\<open>wordninja.split\<close>, which may raise.

  So is the arithmetic of the scores. A score is a Python number, of a type \<open>'f\<close>
  that is linearly ordered (the scores are finite doubles, or the integer 0, which is
  the \<open>0\<close> of \<open>'f\<close>); \<open>true_div a b\<close> is the number that \<^verbatim>\<open>a / b\<close> gives for
  two integers, and \<open>py_sum\<close> is the built-in \<^verbatim>\<open>sum\<close> of a list of numbers. Nothing is
  assumed of their rounding, so what is proved holds of the doubles that Python computes.
\<close>

record 'f env =
  sent_tokenize :: "string \<Rightarrow> string list"
  word_tokenize :: "string \<Rightarrow> string list"
  str_lower :: "string \<Rightarrow> string"
  summarizer :: "string \<Rightarrow> nat \<Rightarrow> nat \<Rightarrow> string"
  eng_check :: "string \<Rightarrow> error + bool"
  ninja_split :: "string \<Rightarrow> error + string list"
  true_div :: "nat \<Rightarrow> nat \<Rightarrow> 'f"
  py_sum :: "'f list \<Rightarrow> 'f"

text \<open>
  The attributes of a \<^verbatim>\<open>PDFSummarizer\<close> that the pipeline reads or writes.
  \<^verbatim>\<open>CHUNK_SIZE\<close> is looked up on the object: the class attribute (4096) until
  \<^verbatim>\<open>summarize\<close> assigns the instance attribute.
\<close>

record pdf_summarizer =
  CHUNK_SIZE :: nat
  stop_words :: "string set"
  doc_text :: string
  chunks :: "string list"
  sentences :: "string list"
  words :: "string list"
  filtered_sentences :: "string list"
  filtered_words :: "string list"
  summary :: string

definition MAX_LENGTH :: nat where
  "MAX_LENGTH = 80"

definition MIN_LENGTH :: nat where
  "MIN_LENGTH = 30"

definition NUM_SENTENCES :: nat where
  "NUM_SENTENCES = 20"

text \<open>
  \<^verbatim>\<open>__init__\<close>, from the stop-word set and the sanitized text of the document: the text is
  split into chunks of the class's \<^verbatim>\<open>CHUNK_SIZE\<close>, and the summary starts empty. The
  attributes that \<^verbatim>\<open>summarize\<close> creates are empty lists here.
\<close>

definition init_summarizer :: "string set \<Rightarrow> string \<Rightarrow> error + pdf_summarizer" where
  "init_summarizer stop txt =
     (case split_text txt 4096 of
        Inl e \<Rightarrow> Inl e
      | Inr cs \<Rightarrow>
          Inr \<lparr>CHUNK_SIZE = 4096, stop_words = stop, doc_text = txt, chunks = cs,
               sentences = [], words = [], filtered_sentences = [], filtered_words = [],
               summary = []\<rparr>)"

section \<open>The concurrent tokenizer and filter\<close>

text \<open>\<^verbatim>\<open>islice(tokens, start, stop)\<close> of a list, for the bounds the loop passes.\<close>

definition islice :: "'a list \<Rightarrow> nat \<Rightarrow> nat \<Rightarrow> 'a list" where
  "islice tokens start stop = take (stop - start) (drop start tokens)"

text \<open>
  The loop of \<^verbatim>\<open>process_concurrently\<close> over \<^verbatim>\<open>range(num_threads)\<close>: each round slices
  the tokens and appends one future to \<^verbatim>\<open>futures\<close>. A future is modelled by the result
  of its pure operation.
\<close>

fun submit_chunks ::
  "nat \<Rightarrow> 'a list \<Rightarrow> ('a list \<Rightarrow> 'b list) \<Rightarrow> nat list \<Rightarrow> 'b list list \<Rightarrow> 'b list list" where
  "submit_chunks cs tokens operation [] futures = futures"
| "submit_chunks cs tokens operation (i # rest) futures =
     (let offset = i * cs;
          chunk = islice tokens offset (offset + cs)
      in submit_chunks cs tokens operation rest (futures @ [operation chunk]))"

text \<open>
  \<^verbatim>\<open>ThreadPoolExecutor(max_workers=num_threads)\<close> raises \<^verbatim>\<open>ValueError\<close> unless
  \<^verbatim>\<open>num_threads\<close> is positive. The results are read from the futures in the order of
  submission.
\<close>

definition process_concurrently ::
  "pdf_summarizer \<Rightarrow> 'a list \<Rightarrow> int \<Rightarrow> ('a list \<Rightarrow> 'b list) \<Rightarrow> error + 'b list" where
  "process_concurrently self tokens num_threads operation =
     (if num_threads \<le> 0 then Inl ValueError
      else Inr (concat (submit_chunks (CHUNK_SIZE self) tokens operation
                          [0..<nat num_threads] [])))"

definition tokenize_sentences :: "'f env \<Rightarrow> string list \<Rightarrow> string list" where
  "tokenize_sentences e cs = concat (map (sent_tokenize e) cs)"

definition tokenize_words :: "'f env \<Rightarrow> string list \<Rightarrow> string list" where
  "tokenize_words e cs = concat (map (word_tokenize e) cs)"

text \<open>The substring test \<^verbatim>\<open>word in token\<close> of two strings.\<close>

fun starts_with :: "'a list \<Rightarrow> 'a list \<Rightarrow> bool" where
  "starts_with token [] = True"
| "starts_with [] (w # ws) = False"
| "starts_with (t # ts) (w # ws) = (t = w \<and> starts_with ts ws)"

fun str_contains :: "'a list \<Rightarrow> 'a list \<Rightarrow> bool" where
  "str_contains [] word = (word = [])"
| "str_contains (t # ts) word = (starts_with (t # ts) word \<or> str_contains ts word)"

definition figure_words :: "string list" where
  "figure_words = [''Figure'', ''Fig'', ''Tab'', ''Table'']"

fun filter_sentences :: "string list \<Rightarrow> string list" where
  "filter_sentences [] = []"
| "filter_sentences (token # rest) =
     (if 1 < length token \<and> \<not> list_ex (\<lambda>word. str_contains token word) figure_words
      then token # filter_sentences rest
      else filter_sentences rest)"

fun filter_words :: "pdf_summarizer \<Rightarrow> string list \<Rightarrow> string list" where
  "filter_words self [] = []"
| "filter_words self (word # rest) =
     (if word \<notin> stop_words self \<and> 1 < length word
      then word # filter_words self rest
      else filter_words self rest)"

section \<open>The frequency scorer\<close>

text \<open>
  NLTK's \<^verbatim>\<open>FreqDist\<close> is a \<^verbatim>\<open>Counter\<close>: a dictionary from a sample to its count, built
  by counting the samples one by one. \<^verbatim>\<open>N()\<close> is the sum of the counts, a missing sample
  counts 0, and \<^verbatim>\<open>freq(sample)\<close> is 0 when \<^verbatim>\<open>N()\<close> is 0 and \<^verbatim>\<open>self[sample] / N()\<close>
  otherwise.
\<close>

fun counter_add :: "('k \<times> nat) list \<Rightarrow> 'k \<Rightarrow> ('k \<times> nat) list" where
  "counter_add [] k = [(k, 1)]"
| "counter_add ((k', c) # rest) k =
     (if k' = k then (k', c + 1) # rest else (k', c) # counter_add rest k)"

definition FreqDist :: "'k list \<Rightarrow> ('k \<times> nat) list" where
  "FreqDist samples = foldl counter_add [] samples"

definition fd_count :: "('k \<times> nat) list \<Rightarrow> 'k \<Rightarrow> nat" where
  "fd_count fd k = (case map_of fd k of None \<Rightarrow> 0 | Some c \<Rightarrow> c)"

definition fd_N :: "('k \<times> nat) list \<Rightarrow> nat" where
  "fd_N fd = sum_list (map snd fd)"

definition fd_freq :: "'f::zero env \<Rightarrow> ('k \<times> nat) list \<Rightarrow> 'k \<Rightarrow> 'f" where
  "fd_freq e fd k = (if fd_N fd = 0 then 0 else true_div e (fd_count fd k) (fd_N fd))"

text \<open>
  An \<^verbatim>\<open>OrderedDict\<close> is an association list in insertion order: assigning to a key that
  is present replaces its value in place, and a new key goes to the end.
\<close>

fun od_set :: "('k \<times> 'v) list \<Rightarrow> 'k \<Rightarrow> 'v \<Rightarrow> ('k \<times> 'v) list" where
  "od_set [] k v = [(k, v)]"
| "od_set ((k', v') # rest) k v =
     (if k' = k then (k', v) # rest else (k', v') # od_set rest k v)"

definition od_keys :: "('k \<times> 'v) list \<Rightarrow> 'k list" where
  "od_keys d = map fst d"

definition od_get :: "('k \<times> 'v) list \<Rightarrow> 'k \<Rightarrow> 'v option" where
  "od_get d k = map_of d k"

definition sentence_score ::
  "'f::zero env \<Rightarrow> (string \<times> nat) list \<Rightarrow> string list \<Rightarrow> string \<Rightarrow> 'f" where
  "sentence_score e frequency_table fws sentence =
     (let sentence_words = word_tokenize e (str_lower e sentence)
      in py_sum e (map (fd_freq e frequency_table)
                    (filter (\<lambda>word. word \<in> set fws) sentence_words)))"

fun score_loop ::
  "'f::zero env \<Rightarrow> (string \<times> nat) list \<Rightarrow> string list \<Rightarrow> string list
   \<Rightarrow> (string \<times> 'f) list \<Rightarrow> (string \<times> 'f) list" where
  "score_loop e frequency_table fws [] scores = scores"
| "score_loop e frequency_table fws (sentence # rest) scores =
     score_loop e frequency_table fws rest
       (od_set scores sentence (sentence_score e frequency_table fws sentence))"

definition score_sentences ::
  "'f::zero env \<Rightarrow> string list \<Rightarrow> string list \<Rightarrow> (string \<times> 'f) list" where
  "score_sentences e fws fss = score_loop e (FreqDist fws) fws fss []"

section \<open>The selector\<close>

text \<open>
  \<^verbatim>\<open>sorted(xs, key=key, reverse=True)\<close>: the list is reversed, sorted by a stable sort,
  and reversed again.
\<close>

definition sorted_reverse :: "('a \<Rightarrow> 'b::linorder) \<Rightarrow> 'a list \<Rightarrow> 'a list" where
  "sorted_reverse key xs = rev (sort_key key (rev xs))"

definition top_sentences :: "(string \<times> 'f::linorder) list \<Rightarrow> nat \<Rightarrow> string list" where
  "top_sentences scores n = take n (sorted_reverse (od_get scores) (od_keys scores))"

text \<open>
  The list that \<^verbatim>\<open>summarize\<close> joins:
  \<^verbatim>\<open>[sentence for sentence in scores.keys() if sentence in sorted(...)[:NUM_SENTENCES]]\<close>.
\<close>

definition selected_sentences :: "(string \<times> 'f::linorder) list \<Rightarrow> nat \<Rightarrow> string list" where
  "selected_sentences scores n =
     filter (\<lambda>sentence. sentence \<in> set (top_sentences scores n)) (od_keys scores)"

section \<open>The lexical corrector\<close>

text \<open>\<^verbatim>\<open>all(eng_dict.check(w) for w in split_words)\<close>, which stops at the first false.\<close>

fun all_check :: "(string \<Rightarrow> error + bool) \<Rightarrow> string list \<Rightarrow> error + bool" where
  "all_check chk [] = Inr True"
| "all_check chk (w # ws) =
     (case chk w of
        Inl e \<Rightarrow> Inl e
      | Inr b \<Rightarrow> if b then all_check chk ws else Inr False)"

text \<open>
  The condition of the corrector's \<^verbatim>\<open>if\<close>:
  \<^verbatim>\<open>len(word) > 5 and not eng_dict.check(word) and all(...)\<close>, evaluated left to right.
\<close>

definition should_split :: "'f env \<Rightarrow> string \<Rightarrow> string list \<Rightarrow> error + bool" where
  "should_split e word split_words =
     (if 5 < length word then
        (case eng_check e word of
           Inl err \<Rightarrow> Inl err
         | Inr known \<Rightarrow> if \<not> known then all_check (eng_check e) split_words else Inr False)
      else Inr False)"

fun correct_loop :: "'f env \<Rightarrow> string list \<Rightarrow> string list \<Rightarrow> error + string list" where
  "correct_loop e [] clean_summary = Inr clean_summary"
| "correct_loop e (word # rest) clean_summary =
     (case ninja_split e word of
        Inl err \<Rightarrow> Inl err
      | Inr split_words \<Rightarrow>
          (case should_split e word split_words of
             Inl err \<Rightarrow> Inl err
           | Inr b \<Rightarrow>
               if b then correct_loop e rest (clean_summary @ split_words)
               else correct_loop e rest (clean_summary @ [word])))"

fun str_join :: "string \<Rightarrow> string list \<Rightarrow> string" where
  "str_join sep [] = []"
| "str_join sep [x] = x"
| "str_join sep (x # y # ys) = x @ sep @ str_join sep (y # ys)"

text \<open>The characters below 256 that Python counts as whitespace.\<close>

definition is_space :: "char \<Rightarrow> bool" where
  "is_space c = (c \<in> {CHR 0x09, CHR 0x0A, CHR 0x0B, CHR 0x0C, CHR 0x0D, CHR 0x1C, CHR 0x1D,
                       CHR 0x1E, CHR 0x1F, CHR 0x20, CHR 0x85, CHR 0xA0})"

text \<open>\<^verbatim>\<open>re.sub("\s+", " ", s)\<close>: every run of whitespace becomes one space.\<close>

function collapse_ws :: "string \<Rightarrow> string" where
  "collapse_ws [] = []"
| "collapse_ws (c # cs) =
     (if is_space c then CHR '' '' # collapse_ws (dropWhile is_space cs)
      else c # collapse_ws cs)"
  by pat_completeness auto
termination
  by (relation "measure length") (auto simp: length_dropWhile_le less_Suc_eq_le)

definition str_strip :: "string \<Rightarrow> string" where
  "str_strip s = rev (dropWhile is_space (rev (dropWhile is_space s)))"

definition finish_summary :: "string list \<Rightarrow> string" where
  "finish_summary clean_summary = str_strip (collapse_ws (str_join '' '' clean_summary))"

text \<open>\<^verbatim>\<open>_correct_summary\<close>, as a function of the summary and on the object.\<close>

definition correct_str :: "'f env \<Rightarrow> string \<Rightarrow> error + string" where
  "correct_str e s =
     (case correct_loop e (word_tokenize e s) [] of
        Inl err \<Rightarrow> Inl err
      | Inr clean_summary \<Rightarrow> Inr (finish_summary clean_summary))"

definition correct_summary :: "'f env \<Rightarrow> pdf_summarizer \<Rightarrow> error + pdf_summarizer" where
  "correct_summary e self =
     (case correct_str e (summary self) of
        Inl err \<Rightarrow> Inl err
      | Inr s \<Rightarrow> Inr (self\<lparr>summary := s\<rparr>))"

section \<open>The pipeline\<close>

definition summarize_chunk :: "'f env \<Rightarrow> string \<Rightarrow> string" where
  "summarize_chunk e chunk = summarizer e chunk MAX_LENGTH MIN_LENGTH"

text \<open>
  \<^verbatim>\<open>summarize\<close> up to the assignment of the joined chunk summaries to \<^verbatim>\<open>self.summary\<close>.
\<close>

definition condense :: "'f::{zero,linorder} env \<Rightarrow> pdf_summarizer \<Rightarrow> error + pdf_summarizer" where
  "condense e self0 =
     (case process_concurrently self0 (chunks self0) 4 (tokenize_sentences e) of
        Inl err \<Rightarrow> Inl err
      | Inr ss \<Rightarrow>
     (let self1 = self0\<lparr>sentences := ss\<rparr> in
      case process_concurrently self1 (sentences self1) 4 (tokenize_words e) of
        Inl err \<Rightarrow> Inl err
      | Inr ws \<Rightarrow>
     (let self2 = self1\<lparr>words := ws\<rparr> in
      case process_concurrently self2 (sentences self2) 4 filter_sentences of
        Inl err \<Rightarrow> Inl err
      | Inr fss \<Rightarrow>
     (let self3 = self2\<lparr>filtered_sentences := fss\<rparr> in
      case process_concurrently self3 (words self3) 4 (filter_words self3) of
        Inl err \<Rightarrow> Inl err
      | Inr fws \<Rightarrow>
     (let self4 = self3\<lparr>filtered_words := fws\<rparr>;
          scores = score_sentences e (filtered_words self4) (filtered_sentences self4);
          self5 = self4\<lparr>CHUNK_SIZE := 1024\<rparr>
      in case split_text (concat (selected_sentences scores NUM_SENTENCES))
                (int (CHUNK_SIZE self5)) of
           Inl err \<Rightarrow> Inl err
         | Inr raw_summary_chunks \<Rightarrow>
             Inr (self5\<lparr>summary := concat (map (summarize_chunk e) raw_summary_chunks)\<rparr>))))))"

definition summarize :: "'f::{zero,linorder} env \<Rightarrow> pdf_summarizer \<Rightarrow> error + pdf_summarizer" where
  "summarize e self =
     (case condense e self of
        Inl err \<Rightarrow> Inl err
      | Inr self' \<Rightarrow> correct_summary e self')"

section \<open>An example run\<close>

text \<open>
  One instance of the collaborators, on which the model is evaluated: tokenizers given by
  their values on the strings of the examples (\<open>cannot\<close> is split into \<open>can\<close> and
  \<open>not\<close>, as NLTK's contraction rule does), an abstractive model that returns its chunk,
  a dictionary of seven words, and a segmentation oracle. The numbers are rationals with
  the exact quotient and sum; every quotient and sum of the example is a multiple of
  \<open>1/4\<close>, which a double holds exactly, so they are the numbers Python computes.
\<close>

definition example_env :: "rat env" where
  "example_env =
     \<lparr>sent_tokenize = (\<lambda>c.
        if c = ''A fox. A dog. A fox, a fox.'' then [''A fox.'', ''A dog.'', ''A fox, a fox.'']
        else [c]),
      word_tokenize = (\<lambda>s.
        if s = ''A fox.'' then [''A'', ''fox'', ''.'']
        else if s = ''a fox.'' then [''a'', ''fox'', ''.'']
        else if s = ''A dog.'' then [''A'', ''dog'', ''.'']
        else if s = ''a dog.'' then [''a'', ''dog'', ''.'']
        else if s = ''A fox, a fox.'' then [''A'', ''fox'', '','', ''a'', ''fox'', ''.'']
        else if s = ''a fox, a fox.'' then [''a'', ''fox'', '','', ''a'', ''fox'', ''.'']
        else if s = ''A fox.A dog.A fox, a fox.''
          then [''A'', ''fox.A'', ''dog.A'', ''fox'', '','', ''a'', ''fox'', ''.'']
        else if s = ''quickbrown dog'' then [''quickbrown'', ''dog'']
        else if s = ''quick brown dog'' then [''quick'', ''brown'', ''dog'']
        else if s = ''we cannot'' then [''we'', ''can'', ''not'']
        else [s]),
      str_lower = (\<lambda>s.
        if s = ''A fox.'' then ''a fox.''
        else if s = ''A dog.'' then ''a dog.''
        else if s = ''A fox, a fox.'' then ''a fox, a fox.''
        else s),
      summarizer = (\<lambda>chunk max_length min_length. chunk),
      eng_check = (\<lambda>w. Inr (w \<in> {''quick'', ''brown'', ''we'', ''cannot'', ''can'', ''not'', ''fox''})),
      ninja_split = (\<lambda>w.
        if w = ''quickbrown'' then Inr [''quick'', ''brown'']
        else if w = ''wecannot'' then Inr [''we'', ''cannot'']
        else Inr [w]),
      true_div = (\<lambda>a b. rat_of_nat a / rat_of_nat b),
      py_sum = sum_list\<rparr>"

text \<open>The same collaborators, with a segmentation oracle that raises on \<open>fox\<close>.\<close>

definition failing_env :: "rat env" where
  "failing_env =
     example_env\<lparr>ninja_split := (\<lambda>w.
        if w = ''fox'' then Inl OracleError else ninja_split example_env w)\<rparr>"

text \<open>The object that \<open>init_summarizer\<close> builds for a document of three sentences.\<close>

definition example_obj :: pdf_summarizer where
  "example_obj =
     \<lparr>CHUNK_SIZE = 4096, stop_words = {''the'', ''a''},
      doc_text = ''A fox. A dog. A fox, a fox.'',
      chunks = [''A fox. A dog. A fox, a fox.''], sentences = [], words = [],
      filtered_sentences = [], filtered_words = [], summary = []\<rparr>"

text \<open>The object after the stages of \<open>summarize\<close> up to the joined chunk summaries.\<close>

definition example_condensed :: pdf_summarizer where
  "example_condensed =
     \<lparr>CHUNK_SIZE = 1024, stop_words = {''the'', ''a''},
      doc_text = ''A fox. A dog. A fox, a fox.'',
      chunks = [''A fox. A dog. A fox, a fox.''],
      sentences = [''A fox.'', ''A dog.'', ''A fox, a fox.''],
      words = [''A'', ''fox'', ''.'', ''A'', ''dog'', ''.'', ''A'', ''fox'', '','', ''a'', ''fox'', ''.''],
      filtered_sentences = [''A fox.'', ''A dog.'', ''A fox, a fox.''],
      filtered_words = [''fox'', ''dog'', ''fox'', ''fox''],
      summary = ''A fox.A dog.A fox, a fox.''\<rparr>"

text \<open>
  A token is settled when the corrector, given its segmentation, keeps it as it is.
\<close>

definition settled :: "'f env \<Rightarrow> string \<Rightarrow> bool" where
  "settled e t \<longleftrightarrow> (\<forall>ss. ninja_split e t = Inr ss \<longrightarrow> should_split e t ss = Inr False)"

section \<open>Properties of the chunker\<close>


lemma py_slice_forward:
  assumes "0 \<le> i" "0 \<le> n"
  shows "py_slice xs i (i + n) = take (nat n) (drop (nat i) xs)"
proof (cases "nat i \<le> length xs")
  case True
  have "min (length xs) (nat (i + n)) - nat i = min (length xs - nat i) (nat n)"
    using assms True by (simp add: nat_add_distrib min_def)
  moreover have "take (min (length xs - nat i) (nat n)) (drop (nat i) xs)
                 = take (nat n) (drop (nat i) xs)"
    by (simp add: min_def)
  moreover have "min (length xs) (nat i) = nat i"
    using True by simp
  ultimately show ?thesis
    using assms by (simp add: py_slice_def slice_index_def Let_def)
next
  case False
  then show ?thesis
    using assms by (simp add: py_slice_def slice_index_def Let_def)
qed

lemma chunks_from_concat:
  assumes "0 < step" "0 \<le> i"
  shows "concat (map (\<lambda>k. py_slice xs k (k + step)) (range_up i (int (length xs)) step))
         = drop (nat i) xs"
  using assms
proof (induction i "int (length xs)" step rule: range_up.induct)
  case (1 i step)
  show ?case
  proof (cases "i < int (length xs)")
    case True
    have ih: "concat (map (\<lambda>k. py_slice xs k (k + step)) (range_up (i + step) (int (length xs)) step))
              = drop (nat (i + step)) xs"
      using 1 True by simp
    have split: "nat (i + step) = nat step + nat i"
      using 1 by (simp add: nat_add_distrib)
    have glue: "take (nat step) (drop (nat i) xs) @ drop (nat step + nat i) xs = drop (nat i) xs"
      by (metis append_take_drop_id drop_drop)
    have "range_up i (int (length xs)) step = i # range_up (i + step) (int (length xs)) step"
      using 1(2) True by (simp add: range_up.simps [of i])
    then show ?thesis
      using 1 ih glue by (simp add: py_slice_forward split)
  next
    case False
    then have "range_up i (int (length xs)) step = []"
      by (simp add: range_up.simps [of i])
    then show ?thesis
      using False by simp
  qed
qed

lemma chunks_from_bounded:
  assumes "0 < step" "0 \<le> i"
  shows "\<forall>k \<in> set (range_up i stop step). length (py_slice xs k (k + step)) \<le> nat step"
  using assms
proof (induction i stop step rule: range_up.induct)
  case (1 i stop step)
  show ?case
  proof (cases "i < stop")
    case True
    then have "range_up i stop step = i # range_up (i + step) stop step"
      using 1(2) by (simp add: range_up.simps [of i])
    then show ?thesis
      using 1 True by (simp add: py_slice_forward)
  next
    case False
    then have "range_up i stop step = []"
      by (simp add: range_up.simps [of i])
    then show ?thesis
      by simp
  qed
qed

lemma length_range_up:
  assumes "0 < step"
  shows "int (length (range_up i stop step)) = max 0 (- ((i - stop) div step))"
  using assms
proof (induction i stop step rule: range_up.induct)
  case (1 i stop step)
  show ?case
  proof (cases "i < stop")
    case True
    have ih: "int (length (range_up (i + step) stop step)) = max 0 (- ((i + step - stop) div step))"
      using 1 True by simp
    have shift: "(i + step - stop) div step = (i - stop) div step + 1"
      using 1(2) by (metis add.commute add_diff_eq div_add_self1 less_irrefl)
    have neg: "(i - stop) div step < 0"
      using True 1(2) by (simp add: div_neg_pos_less0)
    have unf: "range_up i stop step = i # range_up (i + step) stop step"
      using 1(2) True by (simp add: range_up.simps [of i])
    show ?thesis
      using ih shift neg by (simp add: unf)
  next
    case False
    then have "0 \<le> (i - stop) div step"
      using 1(2) by (simp add: pos_imp_zdiv_nonneg_iff)
    moreover have "range_up i stop step = []"
      using False by (simp add: range_up.simps [of i])
    ultimately show ?thesis
      by simp
  qed
qed

lemma split_text_positive:
  assumes "0 < chunk_size"
  shows "split_text txt chunk_size
         = Inr (map (\<lambda>i. py_slice txt i (i + chunk_size)) (range_up 0 (int (length txt)) chunk_size))"
  using assms by (simp add: split_text_def py_range_def)

text \<open>
  Claim C4. For every text and every positive chunk size, \<open>split_text\<close> returns
  \<open>\<lceil>len(text) / chunk_size\<rceil>\<close> chunks, each at most \<open>chunk_size\<close> long, and their
  concatenation in order is the text.
\<close>

theorem split_text_chunks:
  assumes "0 < chunk_size"
  shows "\<exists>cs. split_text txt chunk_size = Inr cs
          \<and> int (length cs) = \<lceil>real (length txt) / real_of_int chunk_size\<rceil>
          \<and> (\<forall>c \<in> set cs. int (length c) \<le> chunk_size)
          \<and> concat cs = txt"
proof -
  let ?idxs = "range_up 0 (int (length txt)) chunk_size"
  let ?cs = "map (\<lambda>i. py_slice txt i (i + chunk_size)) ?idxs"
  have ret: "split_text txt chunk_size = Inr ?cs"
    using assms by (rule split_text_positive)
  have "int (length ?idxs) = max 0 (- ((0 - int (length txt)) div chunk_size))"
    using assms by (rule length_range_up)
  moreover have "(- int (length txt)) div chunk_size \<le> 0"
    using assms by (simp add: div_nonpos_pos_le0)
  moreover have "\<lceil>real (length txt) / real_of_int chunk_size\<rceil> = - ((- int (length txt)) div chunk_size)"
    using ceiling_divide_eq_div [of "int (length txt)" chunk_size] by simp
  ultimately have len: "int (length ?cs) = \<lceil>real (length txt) / real_of_int chunk_size\<rceil>"
    by simp
  have "\<forall>k \<in> set ?idxs. length (py_slice txt k (k + chunk_size)) \<le> nat chunk_size"
    using chunks_from_bounded [of chunk_size 0] assms by simp
  then have bound: "\<forall>c \<in> set ?cs. int (length c) \<le> chunk_size"
    using assms by auto
  have cat: "concat ?cs = txt"
    using chunks_from_concat [of chunk_size 0 "txt"] assms by simp
  show ?thesis
    using ret len bound cat by blast
qed

theorem split_text_chunks_witness:
  "split_text ''abcdefgh'' 3 = Inr [''abc'', ''def'', ''gh'']
   \<and> (\<exists>cs. split_text ''abcdefgh'' 3 = Inr cs \<and> int (length cs) = 3 \<and> concat cs = ''abcdefgh'')"
proof -
  have run: "split_text ''abcdefgh'' 3 = Inr [''abc'', ''def'', ''gh'']"
    by (simp add: split_text_def py_range_def range_up.simps py_slice_def slice_index_def)
  have "(0::int) < 3"
    by simp
  from split_text_chunks [OF this, of "''abcdefgh''"] run show ?thesis
    by simp
qed

text \<open>
  Claim C6, as amended. No check of the chunk size precedes the work: with chunk size 0
  \<open>split_text\<close> fails with the \<open>ValueError\<close> that \<open>range\<close> raises, and with a negative
  chunk size it does not fail but returns the empty list.
\<close>

theorem split_text_nonpositive:
  assumes "chunk_size \<le> 0"
  shows "split_text txt chunk_size = (if chunk_size = 0 then Inl ValueError else Inr [])"
  using assms by (simp add: split_text_def py_range_def range_down.simps [of 0])

theorem split_text_nonpositive_witness:
  "split_text ''abcdefgh'' 0 = Inl ValueError \<and> split_text ''abcdefgh'' (- 1) = Inr []"
  using split_text_nonpositive [of 0 "''abcdefgh''"] split_text_nonpositive [of "- 1" "''abcdefgh''"]
  by simp

theorem split_text_negative_counterexample:
  "split_text ''abcdefgh'' (- 3) = Inr [] \<and> \<not> isl (split_text ''abcdefgh'' (- 3))"
  by (simp add: split_text_def py_range_def range_down.simps [of 0])

section \<open>Properties of the concurrent tokenizer and filter\<close>

lemma submit_chunks_eq:
  "submit_chunks cs tokens operation idxs futures
   = futures @ map (\<lambda>i. operation (islice tokens (i * cs) (i * cs + cs))) idxs"
  by (induction idxs arbitrary: futures) (simp_all add: Let_def)

lemma islice_py_slice:
  "islice tokens (i * cs) (i * cs + cs) = py_slice tokens (int (i * cs)) (int ((i + 1) * cs))"
proof -
  have "py_slice tokens (int (i * cs)) (int ((i + 1) * cs))
        = py_slice tokens (int (i * cs)) (int (i * cs) + int cs)"
    by (simp add: algebra_simps)
  also have "\<dots> = take (nat (int cs)) (drop (nat (int (i * cs))) tokens)"
    by (rule py_slice_forward) simp_all
  also have "\<dots> = take cs (drop (i * cs) tokens)"
    by (simp only: nat_int)
  finally show ?thesis
    by (simp add: islice_def)
qed

lemma islice_prefix:
  assumes "i < w"
  shows "islice (take (w * cs) tokens) (i * cs) (i * cs + cs) = islice tokens (i * cs) (i * cs + cs)"
proof -
  have "cs \<le> w * cs - i * cs"
  proof -
    have "Suc i \<le> w" using assms by simp
    then have "Suc i * cs \<le> w * cs" by (rule mult_le_mono1)
    then show ?thesis by simp
  qed
  then show ?thesis
    by (simp add: islice_def drop_take min_absorb1)
qed

lemma process_concurrently_run:
  assumes "0 < W"
  shows "process_concurrently self ts W f
         = Inr (concat (map (\<lambda>i. f (islice ts (i * CHUNK_SIZE self)
                                       (i * CHUNK_SIZE self + CHUNK_SIZE self)))
                          [0..<nat W]))"
  using assms by (simp add: process_concurrently_def submit_chunks_eq)

text \<open>
  Claim C2. For a positive worker count \<open>W\<close>, \<open>process_concurrently\<close> returns the
  concatenation, for \<open>i = 0..W-1\<close> in this order, of \<open>f\<close> applied to the slice
  \<open>tokens[i*CHUNK_SIZE : (i+1)*CHUNK_SIZE]\<close>; the elements from position \<open>W*CHUNK_SIZE\<close>
  on contribute nothing: cutting them off leaves the result as it is.
\<close>

theorem process_concurrently_slices:
  assumes "0 < W"
  shows "process_concurrently self tokens W f
         = Inr (concat (map (\<lambda>i. f (py_slice tokens (int (i * CHUNK_SIZE self))
                                       (int ((i + 1) * CHUNK_SIZE self))))
                          [0..<nat W]))
       \<and> process_concurrently self (take (nat W * CHUNK_SIZE self) tokens) W f
         = process_concurrently self tokens W f"
proof -
  let ?cs = "CHUNK_SIZE self"
  note run = process_concurrently_run [OF assms, of self]
  have same: "map (\<lambda>i. f (islice (take (nat W * ?cs) tokens) (i * ?cs) (i * ?cs + ?cs))) [0..<nat W]
              = map (\<lambda>i. f (islice tokens (i * ?cs) (i * ?cs + ?cs))) [0..<nat W]"
    by (rule map_cong) (simp_all add: islice_prefix)
  have first: "process_concurrently self tokens W f
               = Inr (concat (map (\<lambda>i. f (py_slice tokens (int (i * ?cs)) (int ((i + 1) * ?cs))))
                                [0..<nat W]))"
    by (simp only: run islice_py_slice)
  have second: "process_concurrently self (take (nat W * ?cs) tokens) W f
                = process_concurrently self tokens W f"
    by (simp only: run same)
  show ?thesis
    using first second by (rule conjI)
qed

theorem process_concurrently_slices_witness:
  "process_concurrently
     \<lparr>CHUNK_SIZE = 2, stop_words = {}, doc_text = [], chunks = [], sentences = [], words = [],
      filtered_sentences = [], filtered_words = [], summary = []\<rparr>
     [1, 2, 3, 4, 5, 6, 7 :: nat] 3 (map Suc) = Inr [2, 3, 4, 5, 6, 7]
   \<and> process_concurrently
     \<lparr>CHUNK_SIZE = 2, stop_words = {}, doc_text = [], chunks = [], sentences = [], words = [],
      filtered_sentences = [], filtered_words = [], summary = []\<rparr>
     [1, 2, 3, 4, 5, 6 :: nat] 3 (map Suc) = Inr [2, 3, 4, 5, 6, 7]"
proof -
  have "(0::int) < 3"
    by simp
  from process_concurrently_slices [OF this,
      of "\<lparr>CHUNK_SIZE = 2, stop_words = {}, doc_text = [], chunks = [], sentences = [], words = [],
           filtered_sentences = [], filtered_words = [], summary = []\<rparr>"
         "[1, 2, 3, 4, 5, 6, 7 :: nat]" "map Suc"]
  show ?thesis
    by (simp add: py_slice_def slice_index_def upt_conv_Cons)
qed

lemma starts_with_prefix: "starts_with token word \<longleftrightarrow> prefix word token"
  by (induction token word rule: starts_with.induct) auto

lemma str_contains_sublist: "str_contains token word \<longleftrightarrow> sublist word token"
  by (induction token) (simp_all add: starts_with_prefix sublist_Cons_right)

text \<open>
  Claim C10. \<open>filter_sentences\<close> returns, in their original order, exactly the elements
  that are longer than one character and contain none of the substrings \<open>Figure\<close>,
  \<open>Fig\<close>, \<open>Tab\<close> and \<open>Table\<close>.
\<close>

theorem filter_sentences_spec:
  "filter_sentences tokens
   = filter (\<lambda>token. 1 < length token \<and> \<not> sublist ''Figure'' token \<and> \<not> sublist ''Fig'' token
               \<and> \<not> sublist ''Tab'' token \<and> \<not> sublist ''Table'' token) tokens"
  by (induction tokens) (simp_all add: figure_words_def str_contains_sublist)

theorem filter_sentences_spec_witness:
  "filter_sentences [''See Figure 2.'', ''x'', ''A fox jumps.'', ''Tabular data.'', ''Done.'']
   = [''A fox jumps.'', ''Done.'']"
proof -
  have "filter_sentences [''See Figure 2.'', ''x'', ''A fox jumps.'', ''Tabular data.'', ''Done.'']
        = [''A fox jumps.'', ''Done.'']"
    by code_simp
  with filter_sentences_spec [of "[''See Figure 2.'', ''x'', ''A fox jumps.'', ''Tabular data.'', ''Done.'']"]
  show ?thesis
    by simp
qed

section \<open>Properties of the frequency scorer\<close>

lemma fd_count_counter_add:
  "fd_count (counter_add fd k) k' = fd_count fd k' + (if k' = k then 1 else 0)"
  by (induction fd k rule: counter_add.induct) (auto simp: fd_count_def)

lemma fd_N_counter_add: "fd_N (counter_add fd k) = fd_N fd + 1"
  by (induction fd k rule: counter_add.induct) (auto simp: fd_N_def)

lemma fd_count_foldl:
  "fd_count (foldl counter_add fd ws) k = fd_count fd k + count_list ws k"
  by (induction ws arbitrary: fd) (auto simp: fd_count_counter_add)

lemma fd_N_foldl: "fd_N (foldl counter_add fd ws) = fd_N fd + length ws"
  by (induction ws arbitrary: fd) (simp_all add: fd_N_counter_add)

lemma fd_count_FreqDist: "fd_count (FreqDist ws) k = count_list ws k"
  by (simp add: FreqDist_def fd_count_foldl) (simp add: fd_count_def)

lemma fd_N_FreqDist: "fd_N (FreqDist ws) = length ws"
  by (simp add: FreqDist_def fd_N_foldl) (simp add: fd_N_def)

lemma fd_freq_FreqDist:
  "fd_freq e (FreqDist ws) k
   = (if ws = [] then 0 else true_div e (count_list ws k) (length ws))"
  by (simp add: fd_freq_def fd_count_FreqDist fd_N_FreqDist)

lemma od_get_od_set: "od_get (od_set d k v) k' = (if k' = k then Some v else od_get d k')"
  by (induction d k v rule: od_set.induct) (auto simp: od_get_def)

lemma od_get_score_loop:
  "od_get (score_loop e fd fws fss scores) s
   = (if s \<in> set fss then Some (sentence_score e fd fws s) else od_get scores s)"
  by (induction fss arbitrary: scores) (auto simp: od_get_od_set)

lemma frequencies_of_members:
  "map (fd_freq e (FreqDist fws)) (filter (\<lambda>word. word \<in> set fws) ts)
   = map (\<lambda>word. true_div e (count_list fws word) (length fws))
       (filter (\<lambda>word. word \<in> set fws) ts)"
  by (rule map_cong) (auto simp: fd_freq_FreqDist)

text \<open>
  Claim C3. The frequency table gives a word its count in \<open>filtered_words\<close> divided by
  the length of \<open>filtered_words\<close> (and 0 when that list is empty, where there is nothing
  to divide by), and every sentence of \<open>filtered_sentences\<close> gets as its score the sum
  of these frequencies over the word tokens of the lowercased sentence that occur in the
  \<open>filtered_words\<close> list as it is. The quotient and the sum are Python's: \<open>true_div\<close>
  and \<open>py_sum\<close>, whatever they round to.
\<close>

theorem frequency_scores:
  "(fws \<noteq> [] \<longrightarrow>
      fd_freq e (FreqDist fws) w = true_div e (count_list fws w) (length fws))
   \<and> (fws = [] \<longrightarrow> fd_freq e (FreqDist fws) w = 0)
   \<and> (\<forall>sentence \<in> set fss.
        od_get (score_sentences e fws fss) sentence
        = Some (py_sum e (map (\<lambda>word. true_div e (count_list fws word) (length fws))
                  (filter (\<lambda>word. word \<in> set fws)
                     (word_tokenize e (str_lower e sentence))))))"
  by (simp add: fd_freq_FreqDist score_sentences_def od_get_score_loop sentence_score_def
        frequencies_of_members)

section \<open>Properties of the selector\<close>

lemma od_keys_od_set:
  "od_keys (od_set d k v) = (if k \<in> set (od_keys d) then od_keys d else od_keys d @ [k])"
  by (induction d k v rule: od_set.induct) (auto simp: od_keys_def)

lemma first_occurrences_Cons:
  "rev (remdups (rev (x # xs))) = x # filter (\<lambda>y. y \<noteq> x) (rev (remdups (rev xs)))"
proof -
  have "remdups (ys @ [x]) = filter (\<lambda>y. y \<noteq> x) (remdups ys) @ [x]" for ys
    by (induction ys) auto
  then show ?thesis
    by (simp add: rev_filter)
qed

lemma od_keys_score_loop:
  "od_keys (score_loop e fd fws fss sc)
   = od_keys sc @ filter (\<lambda>s. s \<notin> set (od_keys sc)) (rev (remdups (rev fss)))"
proof (induction fss arbitrary: sc)
  case Nil
  then show ?case by simp
next
  case (Cons x xs)
  let ?R = "rev (remdups (rev xs))"
  let ?v = "sentence_score e fd fws x"
  have step: "od_keys (score_loop e fd fws (x # xs) sc)
              = od_keys (od_set sc x ?v)
                @ filter (\<lambda>s. s \<notin> set (od_keys (od_set sc x ?v))) ?R"
    using Cons.IH [of "od_set sc x ?v"] by simp
  show ?case
  proof (cases "x \<in> set (od_keys sc)")
    case True
    have "filter (\<lambda>s. s \<notin> set (od_keys sc)) (filter (\<lambda>y. y \<noteq> x) ?R)
          = filter (\<lambda>s. s \<notin> set (od_keys sc)) ?R"
      using True by (auto intro: filter_cong)
    then show ?thesis
      using True step by (simp add: od_keys_od_set first_occurrences_Cons del: rev.simps remdups.simps)
  next
    case False
    have "filter (\<lambda>s. s \<notin> set (od_keys sc) \<and> s \<noteq> x) ?R
          = filter (\<lambda>s. s \<notin> set (od_keys sc)) (filter (\<lambda>y. y \<noteq> x) ?R)"
      by (auto intro: filter_cong)
    then show ?thesis
      using False step
      by (simp add: od_keys_od_set first_occurrences_Cons del: rev.simps remdups.simps)
  qed
qed

lemma od_keys_score_sentences:
  "od_keys (score_sentences e fws fss) = rev (remdups (rev fss))"
  by (simp add: score_sentences_def od_keys_score_loop) (simp add: od_keys_def)

lemma od_get_score_sentences:
  assumes "s \<in> set fss"
  shows "od_get (score_sentences e fws fss) s = Some (sentence_score e (FreqDist fws) fws s)"
  using assms by (simp add: score_sentences_def od_get_score_loop)

lemma subseq_before:
  assumes "subseq (a @ s # b @ t # c) xs"
  shows "\<exists>us vs ws. xs = us @ s # vs @ t # ws"
proof -
  from list_emb_appendD [OF assms] obtain u1 v1 where
    xs: "xs = u1 @ v1" and "subseq (s # b @ t # c) v1"
    by blast
  from list_emb_ConsD [OF this(2)] obtain u2 v2 where
    v1: "v1 = u2 @ s # v2" and "subseq (b @ t # c) v2"
    by blast
  from list_emb_appendD [OF this(2)] obtain u3 v3 where
    v2: "v2 = u3 @ v3" and "subseq (t # c) v3"
    by blast
  from list_emb_ConsD [OF this(2)] obtain u4 v4 where
    v3: "v3 = u4 @ t # v4"
    by blast
  have "xs = (u1 @ u2) @ s # (u3 @ u4) @ t # v4"
    by (simp add: xs v1 v2 v3)
  then show ?thesis
    by blast
qed

lemma sorted_reverse_stable:
  "filter (\<lambda>y. key y = k) (sorted_reverse key xs) = filter (\<lambda>y. key y = k) xs"
proof -
  have "filter (\<lambda>y. key y = k) (sorted_reverse key xs)
        = rev (filter (\<lambda>y. key y = k) (sort_key key (rev xs)))"
    by (simp add: sorted_reverse_def rev_filter)
  also have "\<dots> = rev (filter (\<lambda>y. key y = k) (rev xs))"
    by (simp only: sort_key_stable)
  also have "\<dots> = filter (\<lambda>y. key y = k) xs"
    by (simp add: rev_filter)
  finally show ?thesis .
qed

lemma sorted_reverse_descending:
  assumes "sorted_reverse key xs = A @ B" "a \<in> set A" "b \<in> set B"
  shows "key b \<le> key a"
proof -
  have "sort_key key (rev xs) = rev B @ rev A"
    using assms(1) by (metis rev_append rev_rev_ident sorted_reverse_def)
  then have "sorted (map key (rev B) @ map key (rev A))"
    by (metis map_append sorted_sort_key)
  then show ?thesis
    using assms(2,3) by (auto simp: sorted_append)
qed

lemma top_beats_rest:
  fixes key :: "'a \<Rightarrow> 'b::linorder"
  assumes "distinct xs"
      and "s \<in> set (take n (sorted_reverse key xs))"
      and "t \<in> set xs" "t \<notin> set (take n (sorted_reverse key xs))"
  shows "key t < key s \<or> (key t = key s \<and> (\<exists>us vs ws. xs = us @ s # vs @ t # ws))"
proof -
  let ?r = "sorted_reverse key xs"
  let ?A = "take n ?r" and ?B = "drop n ?r"
  have r: "?r = ?A @ ?B"
    by simp
  have "t \<in> set ?r"
    using assms(3) by (simp add: sorted_reverse_def)
  then have tB: "t \<in> set ?B"
    using assms(4) r by (metis Un_iff set_append)
  have le: "key t \<le> key s"
    using sorted_reverse_descending [OF r assms(2) tB] .
  show ?thesis
  proof (cases "key t = key s")
    case False
    then show ?thesis
      using le by simp
  next
    case True
    let ?P = "\<lambda>y. key y = key s"
    have "filter ?P xs = filter ?P ?A @ filter ?P ?B"
      using sorted_reverse_stable [of key "key s" xs] by (metis filter_append r)
    moreover have "s \<in> set (filter ?P ?A)"
      using assms(2) by simp
    then obtain a1 a2 where "filter ?P ?A = a1 @ s # a2"
      by (meson split_list)
    moreover have "t \<in> set (filter ?P ?B)"
      using tB True by simp
    then obtain b1 b2 where "filter ?P ?B = b1 @ t # b2"
      by (meson split_list)
    ultimately have "filter ?P xs = a1 @ s # (a2 @ b1) @ t # b2"
      by simp
    moreover have "subseq (filter ?P xs) xs"
      by simp
    ultimately have "\<exists>us vs ws. xs = us @ s # vs @ t # ws"
      using subseq_before [of a1 s "a2 @ b1" t b2 xs] by simp
    then show ?thesis
      using True by simp
  qed
qed

lemma set_top_sentences: "set (top_sentences scores n) \<subseteq> set (od_keys scores)"
proof -
  have "set (take n (sorted_reverse (od_get scores) (od_keys scores)))
        \<subseteq> set (sorted_reverse (od_get scores) (od_keys scores))"
    by (rule set_take_subset)
  then show ?thesis
    by (simp add: top_sentences_def sorted_reverse_def)
qed

lemma set_selected_sentences:
  "set (selected_sentences scores n) = set (top_sentences scores n)"
  using set_top_sentences [of scores n] by (auto simp: selected_sentences_def)

lemma length_selected_sentences:
  assumes "distinct (od_keys scores)"
  shows "length (selected_sentences scores n) = min n (length (od_keys scores))"
proof -
  let ?top = "top_sentences scores n"
  have dt: "distinct ?top"
    using assms by (simp add: top_sentences_def sorted_reverse_def)
  have "length (selected_sentences scores n) = card ({x. x \<in> set ?top} \<inter> set (od_keys scores))"
    using assms by (simp add: selected_sentences_def distinct_length_filter)
  also have "{x. x \<in> set ?top} \<inter> set (od_keys scores) = set ?top"
    using set_top_sentences [of scores n] by auto
  also have "card (set ?top) = length ?top"
    using dt by (rule distinct_card)
  also have "\<dots> = min n (length (od_keys scores))"
    by (simp add: top_sentences_def sorted_reverse_def min.commute)
  finally show ?thesis .
qed

section \<open>Properties of the lexical corrector\<close>

lemma all_check_total:
  assumes "\<And>w. chk w = Inr (is_word w)"
  shows "all_check chk ws = Inr (list_all is_word ws)"
  by (induction ws) (simp_all add: assms)

lemma should_split_total:
  assumes "\<And>w. eng_check e w = Inr (is_word w)"
  shows "should_split e w ss = Inr (5 < length w \<and> \<not> is_word w \<and> list_all is_word ss)"
  by (simp add: should_split_def assms all_check_total [of "eng_check e" is_word])

lemma correct_loop_total:
  assumes "\<And>w. eng_check e w = Inr (is_word w)"
      and "\<And>w. ninja_split e w = Inr (segment w)"
  shows "correct_loop e ws acc
         = Inr (acc @ concat (map (\<lambda>w. if 5 < length w \<and> \<not> is_word w \<and> list_all is_word (segment w)
                                        then segment w else [w]) ws))"
  by (induction ws arbitrary: acc) (simp_all add: assms should_split_total [of e is_word])

lemma correct_loop_append:
  "correct_loop e (xs @ ys) acc
   = (case correct_loop e xs acc of Inl err \<Rightarrow> Inl err | Inr acc' \<Rightarrow> correct_loop e ys acc')"
  by (induction xs arbitrary: acc) (simp_all split: sum.splits)

lemma all_check_True:
  "all_check chk ws = Inr True \<Longrightarrow> \<forall>w \<in> set ws. chk w = Inr True"
  by (induction ws) (auto split: sum.splits if_splits)

lemma settled_known: "eng_check e t = Inr True \<Longrightarrow> settled e t"
  by (simp add: settled_def should_split_def)

lemma should_split_segments:
  assumes "should_split e w ss = Inr True"
  shows "\<forall>t \<in> set ss. settled e t"
proof -
  have "all_check (eng_check e) ss = Inr True"
    using assms by (auto simp: should_split_def split: if_splits sum.splits)
  then show ?thesis
    using all_check_True settled_known by blast
qed

lemma correct_loop_settled:
  assumes "correct_loop e ws acc = Inr clean" and "\<forall>t \<in> set acc. settled e t"
  shows "\<forall>t \<in> set clean. settled e t"
  using assms
proof (induction ws arbitrary: acc)
  case Nil
  then show ?case by simp
next
  case (Cons w ws)
  from Cons.prems(1) obtain ss b where
    ss: "ninja_split e w = Inr ss" and b: "should_split e w ss = Inr b"
    by (auto split: sum.splits)
  show ?case
  proof (cases b)
    case True
    then have "correct_loop e ws (acc @ ss) = Inr clean"
      using Cons.prems(1) ss b by simp
    moreover have "\<forall>t \<in> set (acc @ ss). settled e t"
      using Cons.prems(2) should_split_segments [of e w ss] b True by auto
    ultimately show ?thesis
      by (rule Cons.IH)
  next
    case False
    then have "correct_loop e ws (acc @ [w]) = Inr clean"
      using Cons.prems(1) ss b by simp
    moreover have "settled e w"
      using ss b False by (simp add: settled_def)
    then have "\<forall>t \<in> set (acc @ [w]). settled e t"
      using Cons.prems(2) by auto
    ultimately show ?thesis
      by (rule Cons.IH)
  qed
qed

lemma correct_loop_fixed:
  assumes "\<forall>t \<in> set ws. settled e t \<and> (\<exists>ss. ninja_split e t = Inr ss)"
  shows "correct_loop e ws acc = Inr (acc @ ws)"
  using assms by (induction ws arbitrary: acc) (auto simp: settled_def)

section \<open>Properties of the pipeline\<close>

lemma process_concurrently_four:
  "process_concurrently self ts 4 f
   = Inr (concat (map (\<lambda>i. f (islice ts (i * CHUNK_SIZE self)
                                 (i * CHUNK_SIZE self + CHUNK_SIZE self))) [0..<4]))"
  using process_concurrently_run [of 4 self ts f] by simp

lemma filter_words_filter:
  "filter_words self ws = filter (\<lambda>word. word \<notin> stop_words self \<and> 1 < length word) ws"
  by (induction ws) simp_all

lemma condense_result:
  "\<exists>s cs. condense e self = Inr s
     \<and> CHUNK_SIZE s = 1024
     \<and> stop_words s = stop_words self
     \<and> chunks s = chunks self
     \<and> doc_text s = doc_text self
     \<and> sentences s = concat (map (\<lambda>i. tokenize_sentences e (islice (chunks self) (i * CHUNK_SIZE self)
                                 (i * CHUNK_SIZE self + CHUNK_SIZE self))) [0..<4])
     \<and> words s = concat (map (\<lambda>i. tokenize_words e (islice (sentences s) (i * CHUNK_SIZE self)
                                 (i * CHUNK_SIZE self + CHUNK_SIZE self))) [0..<4])
     \<and> filtered_sentences s = concat (map (\<lambda>i. filter_sentences (islice (sentences s) (i * CHUNK_SIZE self)
                                 (i * CHUNK_SIZE self + CHUNK_SIZE self))) [0..<4])
     \<and> filtered_words s = concat (map (\<lambda>i. filter_words self (islice (words s) (i * CHUNK_SIZE self)
                                 (i * CHUNK_SIZE self + CHUNK_SIZE self))) [0..<4])
     \<and> split_text (concat (selected_sentences
                  (score_sentences e (filtered_words s) (filtered_sentences s)) NUM_SENTENCES)) 1024 = Inr cs
     \<and> summary s = concat (map (summarize_chunk e) cs)"
  by (simp add: condense_def process_concurrently_four Let_def split_text_positive
        filter_words_filter)

lemma condense_chunk_size:
  assumes "condense e self = Inr s"
  shows "CHUNK_SIZE s = 1024 \<and> stop_words s = stop_words self \<and> chunks s = chunks self"
  using assms condense_result [of e self] by auto

lemma summarize_chunk_size:
  assumes "summarize e self = Inr s"
  shows "CHUNK_SIZE s = 1024 \<and> stop_words s = stop_words self \<and> chunks s = chunks self"
proof -
  from assms obtain s0 where c: "condense e self = Inr s0" and k: "correct_summary e s0 = Inr s"
    by (auto simp: summarize_def split: sum.splits)
  from k obtain t where "s = s0\<lparr>summary := t\<rparr>"
    by (auto simp: correct_summary_def split: sum.splits)
  then show ?thesis
    using condense_chunk_size [OF c] by simp
qed

lemma filter_words_replicate:
  assumes "w \<notin> stop_words self" "1 < length w"
  shows "filter_words self (replicate n w) = replicate n w"
  using assms by (induction n) simp_all

section \<open>The example run, stage by stage\<close>

lemma example_sentences:
  assumes "CHUNK_SIZE self = 4096"
  shows "process_concurrently self [''A fox. A dog. A fox, a fox.''] 4
           (tokenize_sentences example_env)
         = Inr [''A fox.'', ''A dog.'', ''A fox, a fox.'']"
  using assms
  by (simp add: process_concurrently_four islice_def tokenize_sentences_def example_env_def
        upt_conv_Cons)

lemma example_words:
  assumes "CHUNK_SIZE self = 4096"
  shows "process_concurrently self [''A fox.'', ''A dog.'', ''A fox, a fox.''] 4
           (tokenize_words example_env)
         = Inr [''A'', ''fox'', ''.'', ''A'', ''dog'', ''.'',
                ''A'', ''fox'', '','', ''a'', ''fox'', ''.'']"
  using assms
  by (simp add: process_concurrently_four islice_def tokenize_words_def example_env_def
        upt_conv_Cons)

lemma example_filtered_sentences:
  assumes "CHUNK_SIZE self = 4096"
  shows "process_concurrently self [''A fox.'', ''A dog.'', ''A fox, a fox.''] 4 filter_sentences
         = Inr [''A fox.'', ''A dog.'', ''A fox, a fox.'']"
  using assms
  by (simp add: process_concurrently_four islice_def figure_words_def upt_conv_Cons)

lemma example_filtered_words:
  assumes "CHUNK_SIZE self = 4096" and "stop_words self' = {''the'', ''a''}"
  shows "process_concurrently self
           [''A'', ''fox'', ''.'', ''A'', ''dog'', ''.'', ''A'', ''fox'', '','', ''a'', ''fox'', ''.'']
           4 (filter_words self')
         = Inr [''fox'', ''dog'', ''fox'', ''fox'']"
  using assms
  by (simp add: process_concurrently_four islice_def upt_conv_Cons)

lemma example_frequencies:
  "fd_freq example_env (FreqDist [''fox'', ''dog'', ''fox'', ''fox'']) ''fox'' = 3 / 4"
  "fd_freq example_env (FreqDist [''fox'', ''dog'', ''fox'', ''fox'']) ''dog'' = 1 / 4"
  by (simp_all add: fd_freq_FreqDist example_env_def)

lemma example_scores:
  "score_sentences example_env [''fox'', ''dog'', ''fox'', ''fox'']
     [''A fox.'', ''A dog.'', ''A fox, a fox.'']
   = [(''A fox.'', 3 / 4), (''A dog.'', 1 / 4), (''A fox, a fox.'', 3 / 2)]"
proof -
  have tok: "word_tokenize example_env (str_lower example_env ''A fox.'') = [''a'', ''fox'', ''.'']"
    "word_tokenize example_env (str_lower example_env ''A dog.'') = [''a'', ''dog'', ''.'']"
    "word_tokenize example_env (str_lower example_env ''A fox, a fox.'')
     = [''a'', ''fox'', '','', ''a'', ''fox'', ''.'']"
    by (simp_all add: example_env_def)
  have sum: "py_sum example_env = sum_list"
    by (simp add: example_env_def)
  show ?thesis
    by (simp add: score_sentences_def sentence_score_def tok sum example_frequencies)
qed

lemma example_selected:
  "selected_sentences [(''A fox.'', 3 / 4 :: rat), (''A dog.'', 1 / 4), (''A fox, a fox.'', 3 / 2)]
     NUM_SENTENCES
   = [''A fox.'', ''A dog.'', ''A fox, a fox.'']"
  by (simp add: selected_sentences_def top_sentences_def sorted_reverse_def od_keys_def
        od_get_def NUM_SENTENCES_def)

lemma example_top:
  "top_sentences [(''A fox.'', 3 / 4 :: rat), (''A dog.'', 1 / 4), (''A fox, a fox.'', 3 / 2)]
     NUM_SENTENCES
   = [''A fox, a fox.'', ''A fox.'', ''A dog.'']"
  by (simp add: top_sentences_def sorted_reverse_def od_keys_def od_get_def NUM_SENTENCES_def)

lemma example_selected_two:
  "selected_sentences [(''A fox.'', 3 / 4 :: rat), (''A dog.'', 1 / 4), (''A fox, a fox.'', 3 / 2)] 2
   = [''A fox.'', ''A fox, a fox.'']"
  by (simp add: selected_sentences_def top_sentences_def sorted_reverse_def od_keys_def
        od_get_def)

lemma example_raw_chunks:
  "split_text ''A fox.A dog.A fox, a fox.'' 1024 = Inr [''A fox.A dog.A fox, a fox.'']"
  by (simp add: split_text_def py_range_def range_up.simps py_slice_def slice_index_def)

lemma example_summarize_chunk:
  "summarize_chunk example_env c = c" "summarize_chunk failing_env c = c"
  by (simp_all add: summarize_chunk_def example_env_def failing_env_def)

lemma score_loop_env:
  assumes "word_tokenize e = word_tokenize e'" "str_lower e = str_lower e'"
      and "true_div e = true_div e'" "py_sum e = py_sum e'"
  shows "score_loop e fd fws fss sc = score_loop e' fd fws fss sc"
proof -
  have f: "fd_freq e fd = fd_freq e' fd"
    by (rule ext) (simp add: fd_freq_def assms(3))
  have "sentence_score e fd fws = sentence_score e' fd fws"
    by (rule ext) (simp add: sentence_score_def assms f)
  then show ?thesis
    by (induction fss arbitrary: sc) simp_all
qed

lemma failing_env_tokenizers:
  "tokenize_sentences failing_env = tokenize_sentences example_env"
  "tokenize_words failing_env = tokenize_words example_env"
  "score_sentences failing_env = score_sentences example_env"
  by (simp_all add: fun_eq_iff tokenize_sentences_def tokenize_words_def score_sentences_def
        failing_env_def score_loop_env [of failing_env example_env, unfolded failing_env_def])

lemma condense_example: "condense example_env example_obj = Inr example_condensed"
  by (simp add: condense_def Let_def example_obj_def example_condensed_def example_sentences
        example_words example_filtered_sentences example_filtered_words example_scores
        example_selected example_raw_chunks example_summarize_chunk)

lemma condense_failing: "condense failing_env example_obj = Inr example_condensed"
  by (simp add: condense_def Let_def example_obj_def example_condensed_def
        failing_env_tokenizers example_sentences example_words example_filtered_sentences
        example_filtered_words example_scores example_selected example_raw_chunks
        example_summarize_chunk)

lemma example_corrected:
  "correct_str example_env ''A fox.A dog.A fox, a fox.'' = Inr ''A fox.A dog.A fox , a fox .''"
  by (simp add: correct_str_def example_env_def should_split_def finish_summary_def
        str_strip_def is_space_def)

lemma summarize_example:
  "summarize example_env example_obj
   = Inr (example_condensed\<lparr>summary := ''A fox.A dog.A fox , a fox .''\<rparr>)"
  by (simp add: summarize_def condense_example correct_summary_def)
     (simp add: example_condensed_def example_corrected)

section \<open>The claims about the selector, the corrector and the pipeline\<close>

text \<open>
  Claim C1, as amended. The sentences that \<open>summarize\<close> joins for the condensing stage
  are the top \<open>n\<close> by score (\<open>n\<close> is \<open>NUM_SENTENCES\<close> in \<open>summarize\<close>), in the order
  in which each distinct sentence first occurs in \<open>filtered_sentences\<close>, and not in
  descending order of score. The keys of the score mapping are the distinct sentences
  in the order of their first occurrence; the joined list is a subsequence of them, of
  length \<open>min n\<close> (the number of distinct sentences); every sentence in it scores more
  than every sentence left out, or the same and then it occurs earlier; and its
  concatenation is the text that is split into chunks and condensed. This holds
  whatever the quotient and the sum of the scores round to.
\<close>

theorem selected_in_insertion_order:
  fixes e :: "'f::{zero,linorder} env"
  shows "od_keys (score_sentences e fws fss) = rev (remdups (rev fss))
   \<and> subseq (selected_sentences (score_sentences e fws fss) n) (rev (remdups (rev fss)))
   \<and> length (selected_sentences (score_sentences e fws fss) n) = min n (card (set fss))
   \<and> (\<forall>s \<in> set (selected_sentences (score_sentences e fws fss) n).
        \<forall>t \<in> set fss - set (selected_sentences (score_sentences e fws fss) n).
          sentence_score e (FreqDist fws) fws t < sentence_score e (FreqDist fws) fws s
          \<or> (sentence_score e (FreqDist fws) fws t = sentence_score e (FreqDist fws) fws s
              \<and> (\<exists>us vs ws. rev (remdups (rev fss)) = us @ s # vs @ t # ws)))
   \<and> (\<exists>st cs. condense e self = Inr st
        \<and> split_text (concat (selected_sentences
             (score_sentences e (filtered_words st) (filtered_sentences st)) NUM_SENTENCES)) 1024
           = Inr cs
        \<and> summary st = concat (map (summarize_chunk e) cs))"
proof -
  let ?S = "score_sentences e fws fss"
  let ?R = "rev (remdups (rev fss))"
  let ?sel = "selected_sentences ?S n"
  let ?score = "sentence_score e (FreqDist fws) fws"
  have keys: "od_keys ?S = ?R"
    by (rule od_keys_score_sentences)
  have dist: "distinct (od_keys ?S)"
    by (simp add: keys)
  have setR: "set ?R = set fss"
    by simp
  have order: "subseq ?sel ?R"
    unfolding keys [symmetric] by (simp add: selected_sentences_def)
  have "length ?R = card (set fss)"
    by (metis length_remdups_card_conv length_rev set_rev)
  then have len: "length ?sel = min n (card (set fss))"
    using length_selected_sentences [OF dist, of n] keys by simp
  have best: "?score t < ?score s
              \<or> (?score t = ?score s \<and> (\<exists>us vs ws. ?R = us @ s # vs @ t # ws))"
    if s: "s \<in> set ?sel" and t: "t \<in> set fss - set ?sel" for s t
  proof -
    have s_top: "s \<in> set (take n (sorted_reverse (od_get ?S) (od_keys ?S)))"
      using s by (simp add: set_selected_sentences top_sentences_def)
    have t_not: "t \<notin> set (take n (sorted_reverse (od_get ?S) (od_keys ?S)))"
      using t by (simp add: set_selected_sentences top_sentences_def)
    have t_key: "t \<in> set (od_keys ?S)"
      using t keys by simp
    have s_fss: "s \<in> set fss"
      using s_top set_top_sentences [of ?S n] keys by (auto simp: top_sentences_def)
    have gs: "od_get ?S s = Some (?score s)"
      using s_fss by (rule od_get_score_sentences)
    have gt: "od_get ?S t = Some (?score t)"
      using t by (simp add: od_get_score_sentences)
    from top_beats_rest [OF dist s_top t_key t_not]
    show ?thesis
      by (simp add: gs gt keys)
  qed
  have run: "\<exists>st cs. condense e self = Inr st
        \<and> split_text (concat (selected_sentences
             (score_sentences e (filtered_words st) (filtered_sentences st)) NUM_SENTENCES)) 1024
           = Inr cs
        \<and> summary st = concat (map (summarize_chunk e) cs)"
    using condense_result [of e self] by blast
  show ?thesis
    using keys order len best run by blast
qed

theorem selected_in_insertion_order_witness:
  "od_keys (score_sentences example_env [''fox'', ''dog'', ''fox'', ''fox'']
      [''A fox.'', ''A dog.'', ''A fox, a fox.''])
   = [''A fox.'', ''A dog.'', ''A fox, a fox.'']
   \<and> selected_sentences (score_sentences example_env [''fox'', ''dog'', ''fox'', ''fox'']
      [''A fox.'', ''A dog.'', ''A fox, a fox.'']) 2
     = [''A fox.'', ''A fox, a fox.'']
   \<and> length (selected_sentences (score_sentences example_env [''fox'', ''dog'', ''fox'', ''fox'']
      [''A fox.'', ''A dog.'', ''A fox, a fox.'']) 2) = 2"
proof -
  have c: "card (set [''A fox.'', ''A dog.'', ''A fox, a fox.'']) = 3"
    by simp
  from selected_in_insertion_order [of example_env "[''fox'', ''dog'', ''fox'', ''fox'']"
      "[''A fox.'', ''A dog.'', ''A fox, a fox.'']" 2 example_obj]
  have "od_keys (score_sentences example_env [''fox'', ''dog'', ''fox'', ''fox'']
          [''A fox.'', ''A dog.'', ''A fox, a fox.''])
        = rev (remdups (rev [''A fox.'', ''A dog.'', ''A fox, a fox.'']))"
    and "length (selected_sentences (score_sentences example_env [''fox'', ''dog'', ''fox'', ''fox'']
          [''A fox.'', ''A dog.'', ''A fox, a fox.'']) 2)
        = min 2 (card (set [''A fox.'', ''A dog.'', ''A fox, a fox.'']))"
    by blast+
  then show ?thesis
    by (simp only: c) (simp add: example_scores example_selected_two)
qed

theorem selection_order_counterexample:
  "score_sentences example_env [''fox'', ''dog'', ''fox'', ''fox'']
     [''A fox.'', ''A dog.'', ''A fox, a fox.'']
     = [(''A fox.'', 3 / 4), (''A dog.'', 1 / 4), (''A fox, a fox.'', 3 / 2)]
   \<and> top_sentences [(''A fox.'', 3 / 4 :: rat), (''A dog.'', 1 / 4), (''A fox, a fox.'', 3 / 2)]
        NUM_SENTENCES
     = [''A fox, a fox.'', ''A fox.'', ''A dog.'']
   \<and> selected_sentences [(''A fox.'', 3 / 4 :: rat), (''A dog.'', 1 / 4), (''A fox, a fox.'', 3 / 2)]
        NUM_SENTENCES
     = [''A fox.'', ''A dog.'', ''A fox, a fox.'']
   \<and> condense example_env example_obj = Inr example_condensed
   \<and> summary example_condensed = ''A fox.A dog.A fox, a fox.''
   \<and> summary example_condensed \<noteq> concat [''A fox, a fox.'', ''A fox.'', ''A dog.'']"
  by (simp add: example_scores example_top example_selected condense_example)
     (simp add: example_condensed_def)

theorem frequency_scores_witness:
  "fd_freq example_env (FreqDist [''fox'', ''dog'', ''fox'', ''fox'']) ''fox'' = 3 / 4
   \<and> fd_freq example_env (FreqDist [''fox'', ''dog'', ''fox'', ''fox'']) ''dog'' = 1 / 4
   \<and> od_get (score_sentences example_env [''fox'', ''dog'', ''fox'', ''fox'']
              [''A fox.'', ''A dog.'', ''A fox, a fox.''])
        ''A fox, a fox.'' = Some (3 / 2)"
proof -
  have tok: "word_tokenize example_env (str_lower example_env ''A fox, a fox.'')
             = [''a'', ''fox'', '','', ''a'', ''fox'', ''.'']"
    by (simp add: example_env_def)
  have ar: "true_div example_env a b = rat_of_nat a / rat_of_nat b"
    "py_sum example_env = sum_list" for a b
    by (simp_all add: example_env_def)
  from frequency_scores [of "[''fox'', ''dog'', ''fox'', ''fox'']" example_env "''fox''" "[]"]
  have a: "fd_freq example_env (FreqDist [''fox'', ''dog'', ''fox'', ''fox'']) ''fox'' = 3 / 4"
    by (simp add: ar)
  from frequency_scores [of "[''fox'', ''dog'', ''fox'', ''fox'']" example_env "''dog''" "[]"]
  have b: "fd_freq example_env (FreqDist [''fox'', ''dog'', ''fox'', ''fox'']) ''dog'' = 1 / 4"
    by (simp add: ar)
  from frequency_scores [of "[''fox'', ''dog'', ''fox'', ''fox'']" example_env "''fox''"
      "[''A fox.'', ''A dog.'', ''A fox, a fox.'']"]
  have c: "od_get (score_sentences example_env [''fox'', ''dog'', ''fox'', ''fox'']
              [''A fox.'', ''A dog.'', ''A fox, a fox.''])
        ''A fox, a fox.'' = Some (3 / 2)"
    by (simp add: tok ar)
  show ?thesis
    using a b c by simp
qed

text \<open>
  Claim C5. Where the two dictionary oracles answer (\<open>is_word\<close> and \<open>segment\<close> are
  their answers), the corrector puts the segments of a token in its place if and only
  if the token is longer than 5 characters, is not a word, and every segment is a word,
  and keeps the token otherwise; the summary is the tokens so obtained, joined by
  spaces. In particular tokens of at most 5 characters are all kept.
\<close>

theorem corrector_splits_exactly:
  assumes "\<And>w. eng_check e w = Inr (is_word w)"
      and "\<And>w. ninja_split e w = Inr (segment w)"
  shows "correct_loop e ws []
         = Inr (concat (map (\<lambda>w. if 5 < length w \<and> \<not> is_word w \<and> (\<forall>s \<in> set (segment w). is_word s)
                                   then segment w else [w]) ws))
       \<and> correct_str e s
         = Inr (finish_summary
             (concat (map (\<lambda>w. if 5 < length w \<and> \<not> is_word w \<and> (\<forall>s \<in> set (segment w). is_word s)
                                then segment w else [w]) (word_tokenize e s))))
       \<and> ((\<forall>w \<in> set ws. length w \<le> 5) \<longrightarrow> correct_loop e ws [] = Inr ws)"
proof -
  let ?fix = "\<lambda>w. if 5 < length w \<and> \<not> is_word w \<and> (\<forall>s \<in> set (segment w). is_word s)
                   then segment w else [w]"
  have loop: "correct_loop e ts [] = Inr (concat (map ?fix ts))" for ts
    using correct_loop_total [OF assms, of ts "[]"] by (simp add: list_all_iff)
  have short: "concat (map ?fix ws) = ws" if "\<forall>w \<in> set ws. length w \<le> 5"
    using that by (induction ws) auto
  show ?thesis
    using loop short by (simp add: correct_str_def)
qed

theorem corrector_splits_exactly_witness:
  "correct_loop example_env [''quickbrown'', ''dog''] [] = Inr [''quick'', ''brown'', ''dog'']
   \<and> correct_str example_env ''quickbrown dog'' = Inr ''quick brown dog''
   \<and> correct_loop example_env [''dog'', ''xyz''] [] = Inr [''dog'', ''xyz'']"
proof -
  let ?is_word = "\<lambda>w. w \<in> {''quick'', ''brown'', ''we'', ''cannot'', ''can'', ''not'', ''fox''}"
  let ?segment = "\<lambda>w. if w = ''quickbrown'' then [''quick'', ''brown'']
                       else if w = ''wecannot'' then [''we'', ''cannot'']
                       else [w]"
  have chk: "eng_check example_env w = Inr (?is_word w)" for w
    by (simp add: example_env_def)
  have seg: "ninja_split example_env w = Inr (?segment w)" for w
    by (simp add: example_env_def)
  have tok: "word_tokenize example_env ''quickbrown dog'' = [''quickbrown'', ''dog'']"
    by (simp add: example_env_def)
  have fin: "finish_summary [''quick'', ''brown'', ''dog''] = ''quick brown dog''"
    by (simp add: finish_summary_def str_strip_def is_space_def)
  from corrector_splits_exactly [of example_env ?is_word ?segment "[''quickbrown'', ''dog'']" "''quickbrown dog''",
      OF chk seg]
  have a: "correct_loop example_env [''quickbrown'', ''dog''] [] = Inr [''quick'', ''brown'', ''dog'']"
    and b: "correct_str example_env ''quickbrown dog'' = Inr ''quick brown dog''"
    by (simp_all add: tok fin)
  from corrector_splits_exactly [of example_env ?is_word ?segment "[''dog'', ''xyz'']" "[]",
      OF chk seg]
  have c: "correct_loop example_env [''dog'', ''xyz''] [] = Inr [''dog'', ''xyz'']"
    by simp
  show ?thesis
    using a b c by simp
qed

text \<open>
  Claim C7, as amended. The corrector catches nothing: when the segmentation of a token
  raises, or a dictionary check that the corrector evaluates for the token raises, while
  the tokens before it were processed, the loop ends with that error, and so do
  \<open>correct_summary\<close> and \<open>summarize\<close>.
\<close>

theorem oracle_failure_aborts:
  assumes "condense e self = Inr s"
      and "word_tokenize e (summary s) = pre @ w # post"
      and "correct_loop e pre [] = Inr acc"
      and "ninja_split e w = Inl err
           \<or> (\<exists>ss. ninja_split e w = Inr ss \<and> should_split e w ss = Inl err)"
  shows "correct_loop e (pre @ w # post) [] = Inl err
         \<and> correct_summary e s = Inl err
         \<and> summarize e self = Inl err"
proof -
  have "correct_loop e (w # post) acc = Inl err"
    using assms(4) by auto
  then have "correct_loop e (pre @ w # post) [] = Inl err"
    using assms(3) by (simp add: correct_loop_append)
  then show ?thesis
    using assms(1,2) by (simp add: summarize_def correct_summary_def correct_str_def)
qed

theorem oracle_failure_aborts_witness:
  "correct_loop failing_env [''A'', ''fox.A'', ''dog.A'', ''fox'', '','', ''a'', ''fox'', ''.''] []
   = Inl OracleError
   \<and> summarize failing_env example_obj = Inl OracleError"
proof -
  have tok: "word_tokenize failing_env (summary example_condensed)
             = [''A'', ''fox.A'', ''dog.A''] @ ''fox'' # ['','', ''a'', ''fox'', ''.'']"
    by (simp add: failing_env_def example_env_def example_condensed_def)
  have pre: "correct_loop failing_env [''A'', ''fox.A'', ''dog.A''] []
             = Inr [''A'', ''fox.A'', ''dog.A'']"
    by (simp add: failing_env_def example_env_def should_split_def)
  have bad: "ninja_split failing_env ''fox'' = Inl OracleError
             \<or> (\<exists>ss. ninja_split failing_env ''fox'' = Inr ss
                  \<and> should_split failing_env ''fox'' ss = Inl OracleError)"
    by (simp add: failing_env_def)
  from oracle_failure_aborts [OF condense_failing tok pre bad] show ?thesis
    by simp
qed

theorem oracle_failure_counterexample:
  "ninja_split failing_env ''fox'' = Inl OracleError
   \<and> correct_str failing_env ''A fox.A dog.A fox, a fox.'' = Inl OracleError
   \<and> summarize failing_env example_obj = Inl OracleError"
proof -
  have a: "correct_str failing_env ''A fox.A dog.A fox, a fox.'' = Inl OracleError"
    by (simp add: correct_str_def failing_env_def example_env_def should_split_def)
  then have "summarize failing_env example_obj = Inl OracleError"
    by (simp add: summarize_def condense_failing correct_summary_def)
       (simp add: example_condensed_def)
  then show ?thesis
    using a by (simp add: failing_env_def)
qed

text \<open>
  Claim C8, as amended. The corrector applied to its own output returns that output,
  provided that tokenizing the output gives back the tokens the corrector joined and the
  segmentation oracle answers on each of them.
\<close>

theorem corrector_idempotent_when_retokenized:
  assumes "correct_loop e (word_tokenize e s) [] = Inr clean"
      and "word_tokenize e (finish_summary clean) = clean"
      and "\<forall>t \<in> set clean. \<exists>ss. ninja_split e t = Inr ss"
  shows "correct_str e s = Inr (finish_summary clean)
         \<and> correct_str e (finish_summary clean) = Inr (finish_summary clean)"
proof -
  have "\<forall>t \<in> set clean. settled e t"
    using correct_loop_settled [OF assms(1)] by simp
  then have "correct_loop e clean [] = Inr clean"
    using assms(3) correct_loop_fixed [of clean e "[]"] by simp
  then show ?thesis
    using assms(1,2) by (simp add: correct_str_def)
qed

theorem corrector_idempotent_when_retokenized_witness:
  "correct_str example_env ''quickbrown dog'' = Inr ''quick brown dog''
   \<and> correct_str example_env ''quick brown dog'' = Inr ''quick brown dog''"
proof -
  have fin: "finish_summary [''quick'', ''brown'', ''dog''] = ''quick brown dog''"
    by (simp add: finish_summary_def str_strip_def is_space_def)
  have loop: "correct_loop example_env (word_tokenize example_env ''quickbrown dog'') []
              = Inr [''quick'', ''brown'', ''dog'']"
    by (simp add: example_env_def should_split_def)
  have tok: "word_tokenize example_env (finish_summary [''quick'', ''brown'', ''dog''])
             = [''quick'', ''brown'', ''dog'']"
    by (simp add: fin) (simp add: example_env_def)
  have seg: "\<forall>t \<in> set [''quick'', ''brown'', ''dog'']. \<exists>ss. ninja_split example_env t = Inr ss"
    by (simp add: example_env_def)
  from corrector_idempotent_when_retokenized [OF loop tok seg] show ?thesis
    by (simp add: fin)
qed

theorem corrector_idempotence_counterexample:
  "correct_str example_env ''wecannot'' = Inr ''we cannot''
   \<and> correct_str example_env ''we cannot'' = Inr ''we can not''
   \<and> correct_str example_env ''we cannot'' \<noteq> Inr ''we cannot''"
  by (simp add: correct_str_def example_env_def should_split_def finish_summary_def
        str_strip_def is_space_def)

text \<open>
  Claim C9 fails on the code. \<open>summarize\<close> assigns 1024 to \<open>CHUNK_SIZE\<close> on the
  object, and the next invocation reads it: a stage that covers all of 5000 tokens on an
  object with the class's \<open>CHUNK_SIZE\<close> of 4096 covers only the first 4096 of them on
  the object that a first invocation returns.
\<close>

theorem chunk_size_survives_summarize:
  assumes "CHUNK_SIZE self = 4096"
      and "''fox'' \<notin> stop_words self"
      and "summarize e self = Inr self'"
  shows "CHUNK_SIZE self' = 1024
       \<and> process_concurrently self (replicate 5000 ''fox'') 4 (filter_words self)
           = Inr (replicate 5000 ''fox'')
       \<and> process_concurrently self' (replicate 5000 ''fox'') 4 (filter_words self')
           = Inr (replicate 4096 ''fox'')"
proof -
  note st = summarize_chunk_size [OF assms(3)]
  have keep: "filter_words self (replicate n ''fox'') = replicate n ''fox''" for n
    using assms(2) by (simp add: filter_words_replicate)
  have keep': "filter_words self' (replicate n ''fox'') = replicate n ''fox''" for n
    using assms(2) st by (simp add: filter_words_replicate)
  have first: "process_concurrently self (replicate 5000 ''fox'') 4 (filter_words self)
               = Inr (replicate 5000 ''fox'')"
    by (simp add: process_concurrently_four assms(1) islice_def keep upt_conv_Cons
          flip: replicate_add)
  have second: "process_concurrently self' (replicate 5000 ''fox'') 4 (filter_words self')
                = Inr (replicate 4096 ''fox'')"
    by (simp add: process_concurrently_four st islice_def keep' upt_conv_Cons
          flip: replicate_add)
  show ?thesis
    using st first second by simp
qed

theorem chunk_size_survives_summarize_witness:
  "CHUNK_SIZE example_obj = 4096
   \<and> (\<exists>self'. summarize example_env example_obj = Inr self'
        \<and> CHUNK_SIZE self' = 1024
        \<and> process_concurrently example_obj (replicate 5000 ''fox'') 4 (filter_words example_obj)
            = Inr (replicate 5000 ''fox'')
        \<and> process_concurrently self' (replicate 5000 ''fox'') 4 (filter_words self')
            = Inr (replicate 4096 ''fox''))"
proof -
  have cs: "CHUNK_SIZE example_obj = 4096"
    by (simp add: example_obj_def)
  have fox: "''fox'' \<notin> stop_words example_obj"
    by (simp add: example_obj_def)
  from chunk_size_survives_summarize [OF cs fox summarize_example] cs summarize_example
  show ?thesis
    by simp
qed

end
